theory Spec2Isabelle
  imports Main
begin

section \<open>Values of the program\<close>

text \<open>
  An accelerator is the raw string the caller passes (\<^verbatim>\<open>Accelerator<S>\<close> is a
  compile-time refinement of \<^verbatim>\<open>string\<close>). A \<^verbatim>\<open>WebContents\<close> is identified by
  its \<^verbatim>\<open>id\<close>, the integer Electron assigns from a counter that starts at 1 and is
  unique among all WebContents of the application; the model uses that id for the object.
  A callback \<^verbatim>\<open>() => void\<close> is opaque to the library: it is identified by a number,
  and calling it is recorded in the state. What a callback does beyond being called
  (it could itself call the library) is not modelled.
\<close>

type_synonym Accelerator = string
type_synonym WebContents = nat
type_synonym callback = nat

text \<open>
  The \<^verbatim>\<open>Input\<close> of a \<^verbatim>\<open>before-input-event\<close>: its \<^verbatim>\<open>type\<close>, its \<^verbatim>\<open>key\<close>, and the
  truthiness of \<^verbatim>\<open>i[p]\<close> for every property name \<^verbatim>\<open>p\<close> (a property the object
  does not have reads \<^verbatim>\<open>undefined\<close>, which is falsy).
\<close>

record Input =
  input_type :: string
  input_key :: string
  input_prop :: "string \<Rightarrow> bool"

text \<open>\<^verbatim>\<open>RegisterOptions\<close>: the optional field \<^verbatim>\<open>strict\<close>.\<close>

record RegisterOptions =
  opt_strict :: "bool option"

text \<open>
  The closure \<^verbatim>\<open>handler\<close> that \<^verbatim>\<open>register\<close> builds. Every call of \<^verbatim>\<open>register\<close>
  creates a new function object; \<open>hid\<close> is its identity. The other fields are
  variables of \<^verbatim>\<open>register\<close> in the scope of the closure: the accelerator of the
  call, and the four the closure reads when it is called.
\<close>

datatype handler = Handler
  (hid: nat)
  (h_accelerator: Accelerator)
  (h_inputModifiers: "string list")
  (h_normalizedNonModifier: string)
  (h_strict: bool)
  (h_f: callback)

text \<open>
  The closure \<^verbatim>\<open>handler\<close> that \<^verbatim>\<open>registerOnAll\<close> subscribes to
  \<^verbatim>\<open>browser-window-created\<close>: its identity and the arguments it passes on.
\<close>

datatype all_handler = AllHandler
  (aid: nat)
  (a_accelerator: Accelerator)
  (a_f: callback)
  (a_options: "RegisterOptions option")

datatype exn = MalformedAccelerator | TypeError

text \<open>A call to the module \<^verbatim>\<open>globalShortcut\<close>, in the order the calls are made.\<close>

datatype os_call = Capture Accelerator callback | Release Accelerator

text \<open>
  The state of the process: the three maps of \<^verbatim>\<open>cache.ts\<close>, the listeners of every
  WebContents on \<^verbatim>\<open>before-input-event\<close>, the listeners of \<^verbatim>\<open>app\<close> on
  \<^verbatim>\<open>browser-window-created\<close>, the open windows (each by its WebContents), the bindings
  \<^verbatim>\<open>globalShortcut\<close> holds and the calls it received, the next closure identity, and the
  callbacks called so far.
\<close>

record state =
  localShortcutMap :: "string \<rightharpoonup> handler \<times> WebContents"
  allShortcutMap :: "string \<rightharpoonup> all_handler"
  globalShortcutMap :: "string \<rightharpoonup> callback"
  listeners :: "WebContents \<Rightarrow> handler list"
  appListeners :: "all_handler list"
  windows :: "WebContents list"
  osBindings :: "string \<rightharpoonup> callback"
  osLog :: "os_call list"
  nextId :: nat
  calls :: "callback list"

definition initial :: "WebContents list \<Rightarrow> state" where
  "initial ws =
     \<lparr>localShortcutMap = Map.empty, allShortcutMap = Map.empty,
      globalShortcutMap = Map.empty, listeners = (\<lambda>_. []), appListeners = [],
      windows = ws, osBindings = Map.empty, osLog = [], nextId = 0, calls = []\<rparr>"

text \<open>A call either returns or throws; both leave a state behind.\<close>

datatype outcome = Returned state | Threw exn state

fun state_of :: "outcome \<Rightarrow> state" where
  "state_of (Returned s) = s"
| "state_of (Threw e s) = s"

fun andThen :: "outcome \<Rightarrow> (state \<Rightarrow> outcome) \<Rightarrow> outcome" where
  "andThen (Returned s) k = k s"
| "andThen (Threw e s) k = Threw e s"

section \<open>Strings\<close>

text \<open>
  The decimal rendering of a non-negative integer, as a template literal renders
  \<^verbatim>\<open>webContents.id\<close>.
\<close>

definition digit_char :: "nat \<Rightarrow> char" where
  "digit_char d =
     (if d = 0 then CHR ''0'' else if d = 1 then CHR ''1'' else if d = 2 then CHR ''2''
      else if d = 3 then CHR ''3'' else if d = 4 then CHR ''4'' else if d = 5 then CHR ''5''
      else if d = 6 then CHR ''6'' else if d = 7 then CHR ''7'' else if d = 8 then CHR ''8''
      else CHR ''9'')"

function numberToString :: "nat \<Rightarrow> string" where
  "numberToString n =
     (if n < 10 then [digit_char n]
      else numberToString (n div 10) @ [digit_char (n mod 10)])"
  by pat_completeness auto
termination
  by (relation "measure id") auto

declare numberToString.simps [simp del]

text \<open>\<^verbatim>\<open>String.prototype.toLowerCase\<close> on ASCII text; other bytes stay.\<close>

definition lower_char :: "char \<Rightarrow> char" where
  "lower_char c =
     (case map_of (zip ''ABCDEFGHIJKLMNOPQRSTUVWXYZ'' ''abcdefghijklmnopqrstuvwxyz'') c of
        None \<Rightarrow> c
      | Some l \<Rightarrow> l)"

definition toLowerCase :: "string \<Rightarrow> string" where
  "toLowerCase s = map lower_char s"

section \<open>cache.ts\<close>

text \<open>The key \<^verbatim>\<open>`${accelerator}-${webContents.id}`\<close> of the local map.\<close>

definition localKey :: "Accelerator \<Rightarrow> WebContents \<Rightarrow> string" where
  "localKey accelerator webContents = accelerator @ ''-'' @ numberToString webContents"

definition getShortcutLocal ::
    "Accelerator \<Rightarrow> WebContents \<Rightarrow> state \<Rightarrow> (handler \<times> WebContents) option" where
  "getShortcutLocal accelerator webContents s =
     localShortcutMap s (localKey accelerator webContents)"

definition setShortcutLocal ::
    "Accelerator \<Rightarrow> WebContents \<Rightarrow> handler \<Rightarrow> state \<Rightarrow> state" where
  "setShortcutLocal accelerator webContents h s =
     s\<lparr>localShortcutMap :=
         (localShortcutMap s)(localKey accelerator webContents \<mapsto> (h, webContents))\<rparr>"

definition deleteShortcutLocal :: "Accelerator \<Rightarrow> WebContents \<Rightarrow> state \<Rightarrow> state" where
  "deleteShortcutLocal accelerator webContents s =
     s\<lparr>localShortcutMap := (localShortcutMap s)(localKey accelerator webContents := None)\<rparr>"

definition getShortcutOnAll :: "Accelerator \<Rightarrow> state \<Rightarrow> all_handler option" where
  "getShortcutOnAll accelerator s = allShortcutMap s accelerator"

definition setShortcutOnAll :: "Accelerator \<Rightarrow> all_handler \<Rightarrow> state \<Rightarrow> state" where
  "setShortcutOnAll accelerator h s =
     s\<lparr>allShortcutMap := (allShortcutMap s)(accelerator \<mapsto> h)\<rparr>"

definition deleteShortcutOnAll :: "Accelerator \<Rightarrow> state \<Rightarrow> state" where
  "deleteShortcutOnAll accelerator s =
     s\<lparr>allShortcutMap := (allShortcutMap s)(accelerator := None)\<rparr>"

definition getShortcutGlobal :: "Accelerator \<Rightarrow> state \<Rightarrow> callback option" where
  "getShortcutGlobal accelerator s = globalShortcutMap s accelerator"

definition setShortcutGlobal :: "Accelerator \<Rightarrow> callback \<Rightarrow> state \<Rightarrow> state" where
  "setShortcutGlobal accelerator h s =
     s\<lparr>globalShortcutMap := (globalShortcutMap s)(accelerator \<mapsto> h)\<rparr>"

definition deleteShortcutGlobal :: "Accelerator \<Rightarrow> state \<Rightarrow> state" where
  "deleteShortcutGlobal accelerator s =
     s\<lparr>globalShortcutMap := (globalShortcutMap s)(accelerator := None)\<rparr>"

section \<open>The collaborators\<close>

text \<open>
  What \<^verbatim>\<open>main.ts\<close> imports from \<^verbatim>\<open>./utils\<close> and \<^verbatim>\<open>./input\<close>. The functions that
  read the accelerator may throw, so each returns an error or a value;
  \<^verbatim>\<open>normalizeNonModifier\<close> receives \<^verbatim>\<open>undefined\<close> (\<open>None\<close>) when \<^verbatim>\<open>split\<close> found
  no non-modifier. They are parameters of everything below.
\<close>

record utils =
  split :: "Accelerator \<Rightarrow> exn + (string list \<times> string list)"
  normalizeModifiers :: "string list \<Rightarrow> exn + string list"
  normalizedModifierToInputProperty :: "string \<Rightarrow> exn + string"
  normalizeNonModifier :: "string option \<Rightarrow> exn + string"
  inputProperties :: "string list"

text \<open>\<^verbatim>\<open>Array.prototype.map\<close> with a function that may throw: the first error ends it.\<close>

fun mapE :: "('a \<Rightarrow> exn + 'b) \<Rightarrow> 'a list \<Rightarrow> exn + 'b list" where
  "mapE g [] = Inr []"
| "mapE g (x # xs) =
     (case g x of Inl e \<Rightarrow> Inl e
      | Inr y \<Rightarrow> (case mapE g xs of Inl e \<Rightarrow> Inl e | Inr ys \<Rightarrow> Inr (y # ys)))"

text \<open>
  Node's \<^verbatim>\<open>EventEmitter\<close>, which \<^verbatim>\<open>WebContents\<close> and \<^verbatim>\<open>app\<close> are: \<^verbatim>\<open>on\<close> appends
  the listener; \<^verbatim>\<open>removeListener\<close> throws a \<^verbatim>\<open>TypeError\<close> when the listener is not a
  function and otherwise removes the most recently added occurrence of it, if any;
  \<^verbatim>\<open>emit\<close> calls the listeners in the order they were added.
\<close>

definition removeLast :: "'a \<Rightarrow> 'a list \<Rightarrow> 'a list" where
  "removeLast x xs = rev (remove1 x (rev xs))"

definition wcOn :: "WebContents \<Rightarrow> handler \<Rightarrow> state \<Rightarrow> state" where
  "wcOn wc h s = s\<lparr>listeners := (listeners s)(wc := listeners s wc @ [h])\<rparr>"

definition wcRemoveListener :: "WebContents \<Rightarrow> handler option \<Rightarrow> state \<Rightarrow> outcome" where
  "wcRemoveListener wc listener s =
     (case listener of
        None \<Rightarrow> Threw TypeError s
      | Some h \<Rightarrow> Returned (s\<lparr>listeners := (listeners s)(wc := removeLast h (listeners s wc))\<rparr>))"

definition appOn :: "all_handler \<Rightarrow> state \<Rightarrow> state" where
  "appOn h s = s\<lparr>appListeners := appListeners s @ [h]\<rparr>"

definition appRemoveListener :: "all_handler \<Rightarrow> state \<Rightarrow> state" where
  "appRemoveListener h s = s\<lparr>appListeners := removeLast h (appListeners s)\<rparr>"

text \<open>
  \<^verbatim>\<open>globalShortcut\<close>. It converts the string it is passed to an accelerator of its
  own and throws a \<^verbatim>\<open>TypeError\<close> when it cannot; the strings it accepts are the
  parameter \<open>accepts\<close>. \<^verbatim>\<open>register\<close> then binds the accelerator unless it is bound
  already (then the call fails silently), \<^verbatim>\<open>unregister\<close> releases it. The calls that
  reach it are logged. A binding is kept under the string that was passed; that another
  process may hold the accelerator is outside the model.
\<close>

definition osCapture :: "Accelerator \<Rightarrow> callback \<Rightarrow> state \<Rightarrow> state" where
  "osCapture accelerator g s =
     s\<lparr>osBindings :=
         (if osBindings s accelerator = None then (osBindings s)(accelerator \<mapsto> g)
          else osBindings s),
       osLog := osLog s @ [Capture accelerator g]\<rparr>"

definition osRelease :: "Accelerator \<Rightarrow> state \<Rightarrow> state" where
  "osRelease accelerator s =
     s\<lparr>osBindings := (osBindings s)(accelerator := None),
       osLog := osLog s @ [Release accelerator]\<rparr>"

definition globalShortcutRegister ::
    "(Accelerator \<Rightarrow> bool) \<Rightarrow> Accelerator \<Rightarrow> callback \<Rightarrow> state \<Rightarrow> outcome" where
  "globalShortcutRegister accepts accelerator g s =
     (if accepts accelerator then Returned (osCapture accelerator g s) else Threw TypeError s)"

definition globalShortcutUnregister ::
    "(Accelerator \<Rightarrow> bool) \<Rightarrow> Accelerator \<Rightarrow> state \<Rightarrow> outcome" where
  "globalShortcutUnregister accepts accelerator s =
     (if accepts accelerator then Returned (osRelease accelerator s) else Threw TypeError s)"

text \<open>Calling a callback: the call is recorded.\<close>

definition invoke :: "callback \<Rightarrow> state \<Rightarrow> state" where
  "invoke g s = s\<lparr>calls := calls s @ [g]\<rparr>"

section \<open>main.ts\<close>

definition constVoid :: "state \<Rightarrow> state" where
  "constVoid s = s"

definition isRegisteredLocal :: "Accelerator \<Rightarrow> WebContents \<Rightarrow> state \<Rightarrow> bool" where
  "isRegisteredLocal accelerator webContents s =
     (getShortcutLocal accelerator webContents s \<noteq> None)"

definition isRegisteredOnAll :: "Accelerator \<Rightarrow> state \<Rightarrow> bool" where
  "isRegisteredOnAll accelerator s = (getShortcutOnAll accelerator s \<noteq> None)"

definition isRegisteredGlobal :: "Accelerator \<Rightarrow> state \<Rightarrow> bool" where
  "isRegisteredGlobal accelerator s = (getShortcutGlobal accelerator s \<noteq> None)"

subsection \<open>The closures of register\<close>

definition modifiersCheckNonStrict :: "string list \<Rightarrow> Input \<Rightarrow> bool" where
  "modifiersCheckNonStrict inputMods i = list_all (\<lambda>m. input_prop i m) inputMods"

definition modifiersCheckStrict :: "string list \<Rightarrow> string list \<Rightarrow> Input \<Rightarrow> bool" where
  "modifiersCheckStrict inputProps inputMods i =
     (let excessInputProperties = filter (\<lambda>p. p \<notin> set inputMods) inputProps
      in modifiersCheckNonStrict inputMods i \<and>
         list_all (\<lambda>m. \<not> input_prop i m) excessInputProperties)"

definition modifiersCheck :: "string list \<Rightarrow> handler \<Rightarrow> Input \<Rightarrow> bool" where
  "modifiersCheck inputProps h i =
     (if h_strict h then modifiersCheckStrict inputProps (h_inputModifiers h) i
      else modifiersCheckNonStrict (h_inputModifiers h) i)"

definition onKeyUp :: "state \<Rightarrow> state" where
  "onKeyUp s = constVoid s"

definition onKeyDown :: "string list \<Rightarrow> handler \<Rightarrow> Input \<Rightarrow> state \<Rightarrow> state" where
  "onKeyDown inputProps h input s =
     (if toLowerCase (input_key input) = toLowerCase (h_normalizedNonModifier h) \<and>
         modifiersCheck inputProps h input
      then invoke (h_f h) s
      else constVoid s)"

text \<open>Calling the closure \<^verbatim>\<open>handler\<close> of \<^verbatim>\<open>register\<close> with an input.\<close>

definition runHandler :: "string list \<Rightarrow> handler \<Rightarrow> Input \<Rightarrow> state \<Rightarrow> state" where
  "runHandler inputProps h i s =
     (if input_type i = ''keyUp'' then onKeyUp s else onKeyDown inputProps h i s)"

text \<open>
  The inputs on which the closure calls \<^verbatim>\<open>f\<close>: the condition of \<^verbatim>\<open>handler\<close> and
  \<^verbatim>\<open>onKeyDown\<close> together, used to state what an event does.
\<close>

definition matchesInput :: "string list \<Rightarrow> handler \<Rightarrow> Input \<Rightarrow> bool" where
  "matchesInput inputProps h i =
     (input_type i \<noteq> ''keyUp'' \<and>
      toLowerCase (input_key i) = toLowerCase (h_normalizedNonModifier h) \<and>
      modifiersCheck inputProps h i)"

subsection \<open>The exported operations\<close>

text \<open>
  Lines 55 to 60 of \<^verbatim>\<open>register\<close>: the accelerator is split, the modifiers normalised
  and mapped to input properties, the first non-modifier normalised.
\<close>

definition parseAccelerator :: "utils \<Rightarrow> Accelerator \<Rightarrow> exn + (string list \<times> string)" where
  "parseAccelerator U accelerator =
     (case split U accelerator of
        Inl e \<Rightarrow> Inl e
      | Inr (modifiers, nonModifiers) \<Rightarrow>
          (case normalizeModifiers U modifiers of
             Inl e \<Rightarrow> Inl e
           | Inr normalized \<Rightarrow>
               (case mapE (normalizedModifierToInputProperty U) normalized of
                  Inl e \<Rightarrow> Inl e
                | Inr inputMods \<Rightarrow>
                    (case normalizeNonModifier U
                            (case nonModifiers of [] \<Rightarrow> None | nonModifier # _ \<Rightarrow> Some nonModifier) of
                       Inl e \<Rightarrow> Inl e
                     | Inr nnm \<Rightarrow> Inr (inputMods, nnm)))))"

text \<open>
  \<^verbatim>\<open>unregister\<close>. Its guard \<^verbatim>\<open>!!webContents\<close> is true of every WebContents (and
  \<^verbatim>\<open>getShortcutLocal\<close> has read \<^verbatim>\<open>webContents.id\<close> before it), so \<^verbatim>\<open>doUnregister\<close>
  always runs, with \<^verbatim>\<open>handler\<close> undefined when the map has no entry.
\<close>

definition unregister :: "Accelerator \<Rightarrow> WebContents \<Rightarrow> state \<Rightarrow> outcome" where
  "unregister accelerator webContents s =
     (let h = map_option fst (getShortcutLocal accelerator webContents s)
      in andThen (wcRemoveListener webContents h s)
           (\<lambda>s'. Returned (deleteShortcutLocal accelerator webContents s')))"

text \<open>\<^verbatim>\<open>options?.strict || false\<close>\<close>

definition optionsStrict :: "RegisterOptions option \<Rightarrow> bool" where
  "optionsStrict options =
     (case options of
        None \<Rightarrow> False
      | Some opts \<Rightarrow> (case opt_strict opts of None \<Rightarrow> False | Some b \<Rightarrow> b))"

definition register ::
    "utils \<Rightarrow> Accelerator \<Rightarrow> callback \<Rightarrow> WebContents \<Rightarrow> RegisterOptions option \<Rightarrow> state \<Rightarrow> outcome"
  where
  "register U accelerator g wc options s =
     (let strict = optionsStrict options
      in case parseAccelerator U accelerator of
           Inl e \<Rightarrow> Threw e s
         | Inr (inputMods, nnm) \<Rightarrow>
             (let h = Handler (nextId s) accelerator inputMods nnm strict g;
                  s1 = s\<lparr>nextId := Suc (nextId s)\<rparr>
              in andThen
                   (if isRegisteredLocal accelerator wc s1 then unregister accelerator wc s1
                    else Returned (constVoid s1))
                   (\<lambda>s2. Returned (wcOn wc h (setShortcutLocal accelerator wc h s2)))))"

text \<open>\<^verbatim>\<open>Array.prototype.forEach\<close> with a body that may throw.\<close>

fun forEach :: "'a list \<Rightarrow> ('a \<Rightarrow> state \<Rightarrow> outcome) \<Rightarrow> state \<Rightarrow> outcome" where
  "forEach [] k s = Returned s"
| "forEach (x # xs) k s = andThen (k x s) (forEach xs k)"

definition registerOnAll ::
    "utils \<Rightarrow> Accelerator \<Rightarrow> callback \<Rightarrow> RegisterOptions option \<Rightarrow> state \<Rightarrow> outcome" where
  "registerOnAll U accelerator g options s =
     (let ws = windows s;
          h = AllHandler (nextId s) accelerator g options;
          s1 = s\<lparr>nextId := Suc (nextId s)\<rparr>;
          s2 = appOn h s1;
          s3 = setShortcutOnAll accelerator h s2
      in forEach ws (\<lambda>win. register U accelerator g win options) s3)"

definition unregisterOnAll :: "Accelerator \<Rightarrow> state \<Rightarrow> outcome" where
  "unregisterOnAll accelerator s =
     (let ws = windows s;
          globalHandler = getShortcutOnAll accelerator s;
          s1 = (case globalHandler of
                  Some h \<Rightarrow> deleteShortcutOnAll accelerator (appRemoveListener h s)
                | None \<Rightarrow> constVoid s)
      in forEach ws (\<lambda>win. unregister accelerator win) s1)"

definition unregisterGlobal :: "(Accelerator \<Rightarrow> bool) \<Rightarrow> Accelerator \<Rightarrow> state \<Rightarrow> outcome" where
  "unregisterGlobal accepts accelerator s =
     globalShortcutUnregister accepts accelerator (deleteShortcutGlobal accelerator s)"

definition registerGlobal ::
    "(Accelerator \<Rightarrow> bool) \<Rightarrow> Accelerator \<Rightarrow> callback \<Rightarrow> state \<Rightarrow> outcome" where
  "registerGlobal accepts accelerator g s =
     andThen
       (if isRegisteredGlobal accelerator s then unregisterGlobal accepts accelerator s
        else Returned (constVoid s))
       (\<lambda>s1. globalShortcutRegister accepts accelerator g (setShortcutGlobal accelerator g s1))"

subsection \<open>Events the collaborators deliver\<close>

text \<open>A \<^verbatim>\<open>before-input-event\<close> of a WebContents: every listener is called.\<close>

definition emitInput :: "utils \<Rightarrow> WebContents \<Rightarrow> Input \<Rightarrow> state \<Rightarrow> state" where
  "emitInput U wc i s = foldl (\<lambda>s' h. runHandler (inputProperties U) h i s') s (listeners s wc)"

text \<open>
  A window is created: it joins the open windows, and every listener of
  \<^verbatim>\<open>browser-window-created\<close> is called with it.
\<close>

definition createWindow :: "utils \<Rightarrow> WebContents \<Rightarrow> state \<Rightarrow> outcome" where
  "createWindow U w s =
     forEach (appListeners s)
       (\<lambda>h. register U (a_accelerator h) (a_f h) w (a_options h))
       (s\<lparr>windows := windows s @ [w]\<rparr>)"

text \<open>The user presses a globally bound accelerator: its callback is called.\<close>

definition triggerGlobal :: "Accelerator \<Rightarrow> state \<Rightarrow> state" where
  "triggerGlobal accelerator s =
     (case osBindings s accelerator of None \<Rightarrow> s | Some g \<Rightarrow> invoke g s)"

subsection \<open>Notions used to state the claims\<close>

text \<open>
  The listeners of a window that a registration of the accelerator on it leaves in
  place: all of them but the handler the local map holds under the key, which
  \<^verbatim>\<open>unregisterPreviousIfNeeded\<close> removes.
\<close>

definition remaining :: "Accelerator \<Rightarrow> WebContents \<Rightarrow> state \<Rightarrow> handler list" where
  "remaining a w s =
     (case getShortcutLocal a w s of
        None \<Rightarrow> listeners s w
      | Some (h0, _) \<Rightarrow> removeLast h0 (listeners s w))"

text \<open>
  The listeners of a window and the local map agree: no handler listens twice, and
  every handler that listens is the entry of the map for its accelerator and the
  window.
\<close>

definition consistent :: "WebContents \<Rightarrow> state \<Rightarrow> bool" where
  "consistent w s =
     (distinct (listeners s w) \<and>
      (\<forall>h\<in>set (listeners s w). getShortcutLocal (h_accelerator h) w s = Some (h, w)))"

text \<open>
  The states the process can be in: it starts with some windows open and empty maps,
  and goes on by a call of an exported operation (after a throw, in the state the
  throw left) or by an event.
\<close>

inductive reachable :: "utils \<Rightarrow> (Accelerator \<Rightarrow> bool) \<Rightarrow> state \<Rightarrow> bool"
  for U :: utils and accepts :: "Accelerator \<Rightarrow> bool" where
  start: "reachable U accepts (initial ws)"
| call_register:
    "reachable U accepts s \<Longrightarrow> reachable U accepts (state_of (register U a g w opts s))"
| call_unregister:
    "reachable U accepts s \<Longrightarrow> reachable U accepts (state_of (unregister a w s))"
| call_registerOnAll:
    "reachable U accepts s \<Longrightarrow> reachable U accepts (state_of (registerOnAll U a g opts s))"
| call_unregisterOnAll:
    "reachable U accepts s \<Longrightarrow> reachable U accepts (state_of (unregisterOnAll a s))"
| call_registerGlobal:
    "reachable U accepts s \<Longrightarrow> reachable U accepts (state_of (registerGlobal accepts a g s))"
| call_unregisterGlobal:
    "reachable U accepts s \<Longrightarrow> reachable U accepts (state_of (unregisterGlobal accepts a s))"
| window_created:
    "reachable U accepts s \<Longrightarrow> reachable U accepts (state_of (createWindow U w s))"
| input: "reachable U accepts s \<Longrightarrow> reachable U accepts (emitInput U w i s)"
| triggered: "reachable U accepts s \<Longrightarrow> reachable U accepts (triggerGlobal a s)"

section \<open>An instance of the parameters\<close>

text \<open>
  Modelled from the spec: \<^verbatim>\<open>utils.ts\<close> and \<^verbatim>\<open>input.ts\<close> are not among the sources.
  These definitions follow sections 4.1 and 6 of the specification: tokens are joined
  by \<^verbatim>\<open>+\<close> and compared without regard to case; a token of the alias table is a
  modifier, any other token is the key; an accelerator with no key, with more than one,
  or with an empty token is malformed; duplicate modifiers collapse; the key is
  lower-cased; every canonical modifier has one flag of the snapshot.
  \<^verbatim>\<open>CommandOrControl\<close> is \<^verbatim>\<open>Command\<close> on macOS and \<^verbatim>\<open>Control\<close> elsewhere.
  The theorems about \<^verbatim>\<open>main.ts\<close> hold for every value of the parameters; this
  instance serves to run them on concrete accelerators.
\<close>

text \<open>Modelled from the spec: the tokens of a raw accelerator, between delimiters.\<close>

fun splitOn :: "char \<Rightarrow> string \<Rightarrow> string list" where
  "splitOn d [] = [[]]"
| "splitOn d (c # cs) =
     (if c = d then [] # splitOn d cs
      else (case splitOn d cs of [] \<Rightarrow> [[c]] | t # ts \<Rightarrow> (c # t) # ts))"

text \<open>
  Modelled from the spec: the closed alias table of section 6, keyed by the lower-cased
  alias, with \<^verbatim>\<open>CommandOrControl\<close> resolved by platform.
\<close>

definition aliasTable :: "bool \<Rightarrow> (string \<times> string) list" where
  "aliasTable mac =
     [(''commandorcontrol'', if mac then ''Command'' else ''Control''),
      (''cmdorctrl'', if mac then ''Command'' else ''Control''),
      (''control'', ''Control''), (''ctrl'', ''Control''),
      (''command'', ''Command''), (''cmd'', ''Command''),
      (''alt'', ''Alt''), (''option'', ''Alt''), (''altgr'', ''Alt''),
      (''shift'', ''Shift''),
      (''super'', ''Super''), (''meta'', ''Super'')]"

text \<open>Modelled from the spec: a token is a modifier when the alias table has it.\<close>

definition isModifier :: "bool \<Rightarrow> string \<Rightarrow> bool" where
  "isModifier mac token = (map_of (aliasTable mac) (toLowerCase token) \<noteq> None)"

text \<open>
  Modelled from the spec: \<^verbatim>\<open>split\<close> of \<^verbatim>\<open>utils.ts\<close>, the \<^verbatim>\<open>parse\<close> of section 4.1. It
  fails when the tokens hold no non-modifier, more than one, or an empty string.
\<close>

definition spec_split :: "bool \<Rightarrow> Accelerator \<Rightarrow> exn + (string list \<times> string list)" where
  "spec_split mac raw =
     (let tokens = splitOn CHR ''+'' raw;
          modifiers = filter (isModifier mac) tokens;
          nonModifiers = filter (\<lambda>t. \<not> isModifier mac t) tokens
      in if length nonModifiers \<noteq> 1 \<or> [] \<in> set tokens then Inl MalformedAccelerator
         else Inr (modifiers, nonModifiers))"

text \<open>
  Modelled from the spec: \<^verbatim>\<open>normalizeModifiers\<close> of \<^verbatim>\<open>utils.ts\<close>. Every token goes
  through the alias table, a token it does not have is an error, duplicates collapse.
\<close>

definition spec_normalizeModifiers :: "bool \<Rightarrow> string list \<Rightarrow> exn + string list" where
  "spec_normalizeModifiers mac tokens =
     (case mapE (\<lambda>t. case map_of (aliasTable mac) (toLowerCase t) of
                        None \<Rightarrow> Inl MalformedAccelerator
                      | Some m \<Rightarrow> Inr m) tokens of
        Inl e \<Rightarrow> Inl e
      | Inr ms \<Rightarrow> Inr (remdups ms))"

text \<open>
  Modelled from the spec: \<^verbatim>\<open>normalizedModifierToInputProperty\<close> of \<^verbatim>\<open>utils.ts\<close>, the
  one-to-one \<^verbatim>\<open>modifierToSnapshotFlag\<close> of section 4.1. The flag of a canonical
  modifier is its name in lower case.
\<close>

definition spec_modifierToSnapshotFlag :: "string \<Rightarrow> exn + string" where
  "spec_modifierToSnapshotFlag m = Inr (toLowerCase m)"

text \<open>
  Modelled from the spec: \<^verbatim>\<open>normalizeNonModifier\<close> of \<^verbatim>\<open>utils.ts\<close>. The key is
  lower-cased; there is no key to normalise when the accelerator has none.
\<close>

definition spec_normalizeNonModifier :: "string option \<Rightarrow> exn + string" where
  "spec_normalizeNonModifier token =
     (case token of None \<Rightarrow> Inl MalformedAccelerator | Some t \<Rightarrow> Inr (toLowerCase t))"

text \<open>
  Modelled from the spec: the functions above and \<^verbatim>\<open>inputProperties\<close> of \<^verbatim>\<open>input.ts\<close>,
  one flag for every canonical modifier left after the platform is resolved.
\<close>

definition spec_utils :: "bool \<Rightarrow> utils" where
  "spec_utils mac =
     \<lparr>split = spec_split mac,
      normalizeModifiers = spec_normalizeModifiers mac,
      normalizedModifierToInputProperty = spec_modifierToSnapshotFlag,
      normalizeNonModifier = spec_normalizeNonModifier,
      inputProperties = [''control'', ''command'', ''alt'', ''shift'', ''super'']\<rparr>"

text \<open>
  Modelled from the spec: the malformed accelerators of sections 4.1, 6 and 7. The raw
  string is empty, or its tokens hold no non-modifier, two or more non-modifiers, or an
  empty string. By section 6 a token the alias table does not have is a key, so an
  unrecognised modifier next to a key makes two non-modifiers.
\<close>

definition malformed :: "bool \<Rightarrow> Accelerator \<Rightarrow> bool" where
  "malformed mac raw =
     (let tokens = splitOn CHR ''+'' raw;
          nonModifiers = filter (\<lambda>t. \<not> isModifier mac t) tokens
      in raw = [] \<or> nonModifiers = [] \<or> 2 \<le> length nonModifiers \<or> [] \<in> set tokens)"

section \<open>Facts about strings\<close>

lemma digit_char_not_dash: "digit_char d \<noteq> CHR ''-''"
  by (simp add: digit_char_def)

lemma digit_char_inj: "d < 10 \<Longrightarrow> e < 10 \<Longrightarrow> digit_char d = digit_char e \<Longrightarrow> d = e"
  unfolding digit_char_def by (simp split: if_splits) arith

lemma numberToString_small: "n < 10 \<Longrightarrow> numberToString n = [digit_char n]"
  by (subst numberToString.simps) simp

lemma numberToString_big:
  "\<not> n < 10 \<Longrightarrow> numberToString n = numberToString (n div 10) @ [digit_char (n mod 10)]"
  by (subst numberToString.simps) simp

lemma numberToString_no_dash: "CHR ''-'' \<notin> set (numberToString n)"
proof (induction n rule: numberToString.induct)
  case (1 n)
  show ?case
  proof (cases "n < 10")
    case True
    then show ?thesis
      using digit_char_not_dash [of n] by (auto simp: numberToString_small)
  next
    case False
    with 1 show ?thesis
      using digit_char_not_dash [of "n mod 10"] by (auto simp: numberToString_big)
  qed
qed

lemma numberToString_nonempty: "numberToString n \<noteq> []"
  by (cases "n < 10") (simp_all add: numberToString_small numberToString_big)

lemma numberToString_inj: "numberToString n = numberToString m \<Longrightarrow> n = m"
proof (induction n arbitrary: m rule: numberToString.induct)
  case (1 n)
  show ?case
  proof (cases "n < 10")
    case n: True
    show ?thesis
    proof (cases "m < 10")
      case True
      with n 1(2) show ?thesis
        by (simp add: numberToString_small digit_char_inj)
    next
      case False
      with n 1(2) have "[digit_char n] = numberToString (m div 10) @ [digit_char (m mod 10)]"
        by (simp add: numberToString_small numberToString_big)
      then show ?thesis using numberToString_nonempty [of "m div 10"] by auto
    qed
  next
    case n: False
    show ?thesis
    proof (cases "m < 10")
      case True
      with n 1(2) have "numberToString (n div 10) @ [digit_char (n mod 10)] = [digit_char m]"
        by (simp add: numberToString_small numberToString_big)
      then show ?thesis using numberToString_nonempty [of "n div 10"] by auto
    next
      case False
      with n 1(2) have eq: "numberToString (n div 10) @ [digit_char (n mod 10)]
          = numberToString (m div 10) @ [digit_char (m mod 10)]"
        by (simp add: numberToString_big)
      then have "numberToString (n div 10) = numberToString (m div 10)"
        and d: "digit_char (n mod 10) = digit_char (m mod 10)" by simp_all
      with 1(1) n have "n div 10 = m div 10" by blast
      moreover from d have "n mod 10 = m mod 10" by (intro digit_char_inj) simp_all
      ultimately show ?thesis by (metis div_mult_mod_eq)
    qed
  qed
qed

lemma append_sep_unique_prefix:
  "c \<notin> set xs \<Longrightarrow> c \<notin> set ys \<Longrightarrow> xs @ c # a = ys @ c # b \<Longrightarrow> xs = ys \<and> a = b"
proof (induction xs arbitrary: ys)
  case Nil
  then show ?case by (cases ys) auto
next
  case (Cons x xs)
  then show ?case by (cases ys) auto
qed

lemma append_sep_unique_suffix:
  assumes "c \<notin> set xs" "c \<notin> set ys" "a @ c # xs = b @ c # ys"
  shows "a = b \<and> xs = ys"
proof -
  from assms(3) have "rev (a @ c # xs) = rev (b @ c # ys)" by simp
  then have "rev xs @ c # rev a = rev ys @ c # rev b" by simp
  with assms(1,2) have "rev xs = rev ys \<and> rev a = rev b"
    by (intro append_sep_unique_prefix) simp_all
  then show ?thesis by simp
qed

text \<open>The last \<^verbatim>\<open>-\<close> of a key is the separator, since a decimal number has none.\<close>

lemma localKey_inj: "localKey a1 w1 = localKey a2 w2 \<longleftrightarrow> a1 = a2 \<and> w1 = w2"
proof
  assume "localKey a1 w1 = localKey a2 w2"
  then have "a1 @ CHR ''-'' # numberToString w1 = a2 @ CHR ''-'' # numberToString w2"
    by (simp add: localKey_def)
  then have "a1 = a2 \<and> numberToString w1 = numberToString w2"
    by (rule append_sep_unique_suffix [OF numberToString_no_dash numberToString_no_dash])
  then show "a1 = a2 \<and> w1 = w2" by (auto dest: numberToString_inj)
qed simp

section \<open>Facts about the closures and the events\<close>

lemma runHandler_matches:
  "runHandler inputProps h i s = (if matchesInput inputProps h i then invoke (h_f h) s else s)"
  by (simp add: runHandler_def onKeyUp_def onKeyDown_def constVoid_def matchesInput_def)

lemma invoke_neq: "invoke g s \<noteq> s"
proof
  assume "invoke g s = s"
  then have "calls (invoke g s) = calls s" by simp
  then show False by (simp add: invoke_def)
qed

lemma foldl_fixed: "(\<And>x. x \<in> set xs \<Longrightarrow> f s x = s) \<Longrightarrow> foldl f s xs = s"
  by (induction xs) simp_all

lemma calls_foldl_runHandler:
  "calls (foldl (\<lambda>s' h. runHandler inputProps h i s') s hs) =
     calls s @ map h_f (filter (\<lambda>h. matchesInput inputProps h i) hs)"
  by (induction hs arbitrary: s) (simp_all add: runHandler_matches invoke_def)

lemma calls_emitInput:
  "calls (emitInput U wc i s) =
     calls s @ map h_f (filter (\<lambda>h. matchesInput (inputProperties U) h i) (listeners s wc))"
  by (simp add: emitInput_def calls_foldl_runHandler)

lemma modifiersCheckNonStrict_iff:
  "modifiersCheckNonStrict inputMods i \<longleftrightarrow> (\<forall>m\<in>set inputMods. input_prop i m)"
  by (simp add: modifiersCheckNonStrict_def list_all_iff)

lemma modifiersCheckStrict_iff:
  "modifiersCheckStrict inputProps inputMods i \<longleftrightarrow>
     (\<forall>m\<in>set inputMods. input_prop i m) \<and>
     (\<forall>p\<in>set inputProps. p \<notin> set inputMods \<longrightarrow> \<not> input_prop i p)"
  by (auto simp: modifiersCheckStrict_def modifiersCheckNonStrict_iff list_all_iff)

lemma strict_exact:
  assumes "set inputMods \<subseteq> set inputProps"
  shows "modifiersCheckStrict inputProps inputMods i \<longleftrightarrow>
           {p \<in> set inputProps. input_prop i p} = set inputMods"
  using assms unfolding modifiersCheckStrict_iff by blast

section \<open>Facts about the operations\<close>

lemma removeLast_snoc: "removeLast x (xs @ [x]) = xs"
  by (simp add: removeLast_def)

lemma set_removeLast: "set (removeLast x xs) \<subseteq> set xs"
  using set_remove1_subset [of x "rev xs"] by (simp add: removeLast_def)

lemma unregister_absent:
  "getShortcutLocal a w s = None \<Longrightarrow> unregister a w s = Threw TypeError s"
  by (simp add: unregister_def wcRemoveListener_def)

lemma unregister_present:
  "getShortcutLocal a w s = Some (h0, w0) \<Longrightarrow>
   unregister a w s =
     Returned (s\<lparr>localShortcutMap := (localShortcutMap s)(localKey a w := None),
                 listeners := (listeners s)(w := removeLast h0 (listeners s w))\<rparr>)"
  by (simp add: unregister_def wcRemoveListener_def deleteShortcutLocal_def)

lemma register_Threw:
  "parseAccelerator U a = Inl e \<Longrightarrow> register U a g w opts s = Threw e s"
  by (simp add: register_def)

lemma register_Returned:
  assumes "parseAccelerator U a = Inr (mods, nnm)"
  shows "register U a g w opts s =
     Returned (s\<lparr>localShortcutMap :=
                   (localShortcutMap s)
                     (localKey a w \<mapsto> (Handler (nextId s) a mods nnm (optionsStrict opts) g, w)),
                 listeners :=
                   (listeners s)
                     (w := remaining a w s @ [Handler (nextId s) a mods nnm (optionsStrict opts) g]),
                 nextId := Suc (nextId s)\<rparr>)"
proof (cases "getShortcutLocal a w s")
  case None
  with assms show ?thesis
    by (simp add: register_def isRegisteredLocal_def getShortcutLocal_def constVoid_def
        setShortcutLocal_def wcOn_def remaining_def Let_def)
next
  case (Some p)
  obtain h0 w0 where p: "p = (h0, w0)" by (cases p)
  from Some p have g: "getShortcutLocal a w (s\<lparr>nextId := Suc (nextId s)\<rparr>) = Some (h0, w0)"
    by (simp add: getShortcutLocal_def)
  from assms Some p show ?thesis
    by (simp add: register_def isRegisteredLocal_def unregister_present [OF g]
        getShortcutLocal_def setShortcutLocal_def wcOn_def remaining_def Let_def)
qed

lemma unregisterGlobal_Returned:
  "accepts a \<Longrightarrow>
   unregisterGlobal accepts a s = Returned (osRelease a (deleteShortcutGlobal a s))"
  by (simp add: unregisterGlobal_def globalShortcutUnregister_def)

lemma registerGlobal_Returned:
  "accepts a \<Longrightarrow>
   registerGlobal accepts a g s =
     Returned (osCapture a g (setShortcutGlobal a g
       (if isRegisteredGlobal a s then osRelease a (deleteShortcutGlobal a s) else s)))"
  by (simp add: registerGlobal_def unregisterGlobal_Returned globalShortcutRegister_def
      constVoid_def)

lemma registerGlobal_throws_TypeError_only:
  "registerGlobal accepts a g s = Threw e s' \<Longrightarrow> e = TypeError"
  by (cases "accepts a")
     (auto simp: registerGlobal_def unregisterGlobal_def globalShortcutRegister_def
       globalShortcutUnregister_def split: if_splits)

lemma registerGlobal_stores_first:
  "\<not> isRegisteredGlobal a s \<Longrightarrow>
   getShortcutGlobal a (state_of (registerGlobal accepts a g s)) = Some g"
  by (simp add: registerGlobal_def globalShortcutRegister_def constVoid_def
      getShortcutGlobal_def setShortcutGlobal_def osCapture_def)

lemma forEach_preserves:
  assumes "\<And>x s. P s \<Longrightarrow> P (state_of (k x s))"
  shows "P s \<Longrightarrow> P (state_of (forEach xs k s))"
proof (induction xs arbitrary: s)
  case Nil
  then show ?case by simp
next
  case (Cons x xs)
  from assms [OF Cons.prems] have p: "P (state_of (k x s))" .
  show ?case
  proof (cases "k x s")
    case (Returned s')
    with p Cons.IH [of s'] show ?thesis by simp
  next
    case (Threw e s')
    with p show ?thesis by simp
  qed
qed

lemma appListeners_forEach:
  assumes "\<And>x s. appListeners (state_of (k x s)) = appListeners s"
  shows "appListeners (state_of (forEach xs k s)) = appListeners s"
proof (induction xs arbitrary: s)
  case Nil
  show ?case by simp
next
  case (Cons x xs)
  show ?case
  proof (cases "k x s")
    case (Returned s')
    with Cons assms [of x s] show ?thesis by simp
  next
    case (Threw e s')
    with assms [of x s] show ?thesis by simp
  qed
qed

lemma appListeners_register:
  "appListeners (state_of (register U a g w opts s)) = appListeners s"
proof (cases "parseAccelerator U a")
  case (Inl e)
  then show ?thesis by (simp add: register_Threw)
next
  case (Inr p)
  obtain mods nnm where "p = (mods, nnm)" by (cases p)
  with Inr show ?thesis by (simp add: register_Returned)
qed

lemma appListeners_registerOnAll:
  "appListeners (state_of (registerOnAll U a g opts s)) =
     appListeners s @ [AllHandler (nextId s) a g opts]"
  by (simp add: registerOnAll_def Let_def appListeners_forEach appListeners_register
      setShortcutOnAll_def appOn_def)

subsection \<open>The listeners and the local map stay consistent\<close>

lemma distinct_removeLast: "distinct xs \<Longrightarrow> distinct (removeLast x xs)"
  by (simp add: removeLast_def)

lemma removed_by_removeLast: "distinct xs \<Longrightarrow> x \<notin> set (removeLast x xs)"
  by (simp add: removeLast_def)

lemma consistent_remaining:
  assumes "consistent w s" and "h \<in> set (remaining a w s)"
  shows "h_accelerator h \<noteq> a \<and> h \<in> set (listeners s w)"
proof (cases "getShortcutLocal a w s")
  case None
  with assms show ?thesis by (auto simp: consistent_def remaining_def)
next
  case (Some q)
  obtain h0 w0 where q: "q = (h0, w0)" by (cases q)
  from assms(2) Some q have r: "h \<in> set (removeLast h0 (listeners s w))"
    by (simp add: remaining_def)
  with set_removeLast have l: "h \<in> set (listeners s w)" by fastforce
  from assms(1) have "h0 \<notin> set (removeLast h0 (listeners s w))"
    by (simp add: consistent_def removed_by_removeLast)
  with r have "h \<noteq> h0" by auto
  moreover from assms(1) l have "getShortcutLocal (h_accelerator h) w s = Some (h, w)"
    by (simp add: consistent_def)
  ultimately have "h_accelerator h \<noteq> a" using Some q by auto
  with l show ?thesis by simp
qed

lemma distinct_remaining: "consistent w s \<Longrightarrow> distinct (remaining a w s)"
  by (auto simp: consistent_def remaining_def distinct_removeLast split: option.splits)

lemma consistent_register:
  assumes "consistent w s"
  shows "consistent w (state_of (register U a g w' opts s))"
proof (cases "parseAccelerator U a")
  case (Inl e)
  with assms show ?thesis by (simp add: register_Threw)
next
  case (Inr p)
  obtain mods nnm where "p = (mods, nnm)" by (cases p)
  with Inr have r: "parseAccelerator U a = Inr (mods, nnm)" by simp
  show ?thesis
  proof (cases "w' = w")
    case True
    have k: "localKey (h_accelerator h) w \<noteq> localKey a w"
         "getShortcutLocal (h_accelerator h) w s = Some (h, w)"
      if "h \<in> set (remaining a w s)" for h
      using consistent_remaining [OF assms that] assms
      by (simp_all add: localKey_inj consistent_def)
    have n: "Handler (nextId s) a mods nnm (optionsStrict opts) g \<notin> set (remaining a w s)"
      using consistent_remaining [OF assms] by fastforce
    from True k n distinct_remaining [OF assms, of a] show ?thesis
      by (auto simp: register_Returned [OF r] consistent_def getShortcutLocal_def)
  next
    case False
    then have "localKey (h_accelerator h) w \<noteq> localKey a w'" for h
      by (simp add: localKey_inj)
    with False assms show ?thesis
      by (auto simp: register_Returned [OF r] consistent_def getShortcutLocal_def)
  qed
qed

lemma consistent_unregister:
  assumes "consistent w s"
  shows "consistent w (state_of (unregister a w' s))"
proof (cases "getShortcutLocal a w' s")
  case None
  with assms show ?thesis by (simp add: unregister_absent)
next
  case (Some q)
  obtain h0 w0 where "q = (h0, w0)" by (cases q)
  with Some have g: "getShortcutLocal a w' s = Some (h0, w0)" by simp
  show ?thesis
  proof (cases "w' = w")
    case True
    from g True have g': "getShortcutLocal a w s = Some (h0, w0)"
      by simp
    then have rem: "remaining a w s = removeLast h0 (listeners s w)"
      by (simp add: remaining_def)
    have k: "localKey (h_accelerator h) w \<noteq> localKey a w"
         "getShortcutLocal (h_accelerator h) w s = Some (h, w)"
      if "h \<in> set (removeLast h0 (listeners s w))" for h
      using consistent_remaining [OF assms, of h a] that assms
      by (simp_all add: rem localKey_inj consistent_def)
    from k distinct_remaining [OF assms, of a] show ?thesis
      unfolding True
      by (auto simp: unregister_present [OF g'] consistent_def getShortcutLocal_def rem)
  next
    case False
    then have "localKey (h_accelerator h) w \<noteq> localKey a w'" for h
      by (simp add: localKey_inj)
    with False assms show ?thesis
      by (auto simp: unregister_present [OF g] consistent_def getShortcutLocal_def)
  qed
qed

lemma consistent_registerOnAll:
  assumes "consistent w s"
  shows "consistent w (state_of (registerOnAll U a g opts s))"
proof -
  let ?h = "AllHandler (nextId s) a g opts"
  let ?s3 = "setShortcutOnAll a ?h (appOn ?h (s\<lparr>nextId := Suc (nextId s)\<rparr>))"
  from assms have "consistent w ?s3"
    by (simp add: consistent_def getShortcutLocal_def setShortcutOnAll_def appOn_def)
  then have "consistent w (state_of (forEach (windows s) (\<lambda>win. register U a g win opts) ?s3))"
    by (rule forEach_preserves [where P = "consistent w", rotated]) (rule consistent_register)
  then show ?thesis by (simp add: registerOnAll_def Let_def)
qed

lemma consistent_unregisterOnAll:
  assumes "consistent w s"
  shows "consistent w (state_of (unregisterOnAll a s))"
proof -
  let ?s1 = "case getShortcutOnAll a s of
               Some h \<Rightarrow> deleteShortcutOnAll a (appRemoveListener h s)
             | None \<Rightarrow> constVoid s"
  from assms have "consistent w ?s1"
    by (simp add: consistent_def getShortcutLocal_def deleteShortcutOnAll_def
        appRemoveListener_def constVoid_def split: option.splits)
  then have "consistent w (state_of (forEach (windows s) (\<lambda>win. unregister a win) ?s1))"
    by (rule forEach_preserves [where P = "consistent w", rotated]) (rule consistent_unregister)
  then show ?thesis by (simp add: unregisterOnAll_def Let_def)
qed

lemma consistent_createWindow:
  assumes "consistent w s"
  shows "consistent w (state_of (createWindow U w' s))"
proof -
  from assms have "consistent w (s\<lparr>windows := windows s @ [w']\<rparr>)"
    by (simp add: consistent_def getShortcutLocal_def)
  then show ?thesis
    unfolding createWindow_def
    by (rule forEach_preserves [where P = "consistent w", rotated]) (rule consistent_register)
qed

lemma consistent_registerGlobal:
  "consistent w s \<Longrightarrow> consistent w (state_of (registerGlobal accepts a g s))"
  by (simp add: registerGlobal_def unregisterGlobal_def globalShortcutRegister_def
      globalShortcutUnregister_def constVoid_def consistent_def getShortcutLocal_def
      setShortcutGlobal_def deleteShortcutGlobal_def osCapture_def osRelease_def)

lemma consistent_unregisterGlobal:
  "consistent w s \<Longrightarrow> consistent w (state_of (unregisterGlobal accepts a s))"
  by (simp add: unregisterGlobal_def globalShortcutUnregister_def consistent_def
      getShortcutLocal_def deleteShortcutGlobal_def osRelease_def)

lemma consistent_foldl_runHandler:
  "consistent w s \<Longrightarrow> consistent w (foldl (\<lambda>s' h. runHandler inputProps h i s') s hs)"
  by (induction hs arbitrary: s)
     (simp_all add: runHandler_matches invoke_def consistent_def getShortcutLocal_def)

lemma consistent_emitInput: "consistent w s \<Longrightarrow> consistent w (emitInput U w' i s)"
  by (simp add: emitInput_def consistent_foldl_runHandler)

lemma consistent_triggerGlobal: "consistent w s \<Longrightarrow> consistent w (triggerGlobal a s)"
  by (simp add: triggerGlobal_def invoke_def consistent_def getShortcutLocal_def
      split: option.splits)

text \<open>Every state the process can be in is consistent, on every window.\<close>

lemma reachable_consistent: "reachable U accepts s \<Longrightarrow> consistent w s"
proof (induction rule: reachable.induct)
  case (start ws)
  show ?case by (simp add: consistent_def initial_def)
qed (simp_all add: consistent_register consistent_unregister consistent_registerOnAll
      consistent_unregisterOnAll consistent_registerGlobal consistent_unregisterGlobal
      consistent_createWindow consistent_emitInput consistent_triggerGlobal)

section \<open>The instance on concrete accelerators\<close>

lemma parse_ctrl_a:
  "parseAccelerator (spec_utils False) ''Ctrl+A'' = Inr ([''control''], ''a'')"
  by code_simp

lemma parse_ctrl_shift_a:
  "parseAccelerator (spec_utils False) ''Ctrl+Shift+A'' = Inr ([''control'', ''shift''], ''a'')"
  by code_simp

lemma parse_shift_ctrl_a:
  "parseAccelerator (spec_utils False) ''shift+ctrl+a'' = Inr ([''shift'', ''control''], ''a'')"
  by code_simp

lemma parse_ctrl_shift:
  "parseAccelerator (spec_utils False) ''Ctrl+Shift'' = Inl MalformedAccelerator"
  by code_simp

text \<open>
  The parsing step of \<^verbatim>\<open>register\<close> on the instance throws exactly on the malformed
  accelerators, and what it throws is \<^verbatim>\<open>MalformedAccelerator\<close>.
\<close>

lemma malformed_parse:
  "malformed mac a \<Longrightarrow> parseAccelerator (spec_utils mac) a = Inl MalformedAccelerator"
  by (auto simp: malformed_def parseAccelerator_def spec_utils_def spec_split_def Let_def)

lemma mapE_Inr:
  "(\<And>x. x \<in> set xs \<Longrightarrow> \<exists>y. g x = Inr y) \<Longrightarrow> \<exists>ys. mapE g xs = Inr ys"
proof (induction xs)
  case Nil
  show ?case by simp
next
  case (Cons x xs)
  from Cons.prems [of x] obtain y where "g x = Inr y" by auto
  moreover from Cons.IH Cons.prems obtain ys where "mapE g xs = Inr ys" by auto
  ultimately show ?case by simp
qed

lemma wellformed_parse:
  assumes "\<not> malformed mac a"
  shows "\<exists>p. parseAccelerator (spec_utils mac) a = Inr p"
proof -
  let ?tokens = "splitOn CHR ''+'' a"
  let ?mods = "filter (isModifier mac) ?tokens"
  let ?non = "filter (\<lambda>t. \<not> isModifier mac t) ?tokens"
  from assms have ne: "?non \<noteq> []" and le: "\<not> 2 \<le> length ?non"
    and e: "[] \<notin> set ?tokens"
    by (simp_all add: malformed_def Let_def)
  from ne have "0 < length ?non" by simp
  with le have n: "length ?non = 1" by arith
  from n e have s: "spec_split mac a = Inr (?mods, ?non)"
    by (simp add: spec_split_def Let_def)
  obtain k where k: "?non = [k]"
    using n by (cases ?non) auto
  have "\<exists>ms. mapE (\<lambda>t. case map_of (aliasTable mac) (toLowerCase t) of
                        None \<Rightarrow> Inl MalformedAccelerator
                      | Some m \<Rightarrow> Inr m) ?mods = Inr ms"
    by (rule mapE_Inr) (auto simp: isModifier_def)
  then obtain ms where m: "spec_normalizeModifiers mac ?mods = Inr (remdups ms)"
    by (auto simp: spec_normalizeModifiers_def)
  have "\<exists>fs. mapE spec_modifierToSnapshotFlag (remdups ms) = Inr fs"
    by (rule mapE_Inr) (simp add: spec_modifierToSnapshotFlag_def)
  then obtain fs where f: "mapE spec_modifierToSnapshotFlag (remdups ms) = Inr fs" ..
  from s m f k show ?thesis
    by (simp add: parseAccelerator_def spec_utils_def spec_normalizeNonModifier_def)
qed

lemma parse_raises_iff_malformed:
  "(\<exists>e. parseAccelerator (spec_utils mac) a = Inl e) \<longleftrightarrow> malformed mac a"
  using malformed_parse [of mac a] wellformed_parse [of mac a] by (cases "malformed mac a") auto

section \<open>The claims\<close>

subsection \<open>C1\<close>

text \<open>
  C1. When the accelerator parses and the listeners of the window agree with the local
  map (as they do in every reachable state), two calls of \<^verbatim>\<open>register\<close> for the same
  accelerator and window both return, and afterwards: the local map holds the handler
  of the second call; the listeners of the window are those the first call left in
  place, all of other accelerators, followed by that handler, so that exactly one
  handler of the accelerator listens; the handler of the first call listens no more;
  no callback was called by registering; and a snapshot the second handler matches
  makes the handlers of the other accelerators act as before and then calls \<^verbatim>\<open>cb2\<close>,
  once.
\<close>

theorem register_twice:
  assumes "parseAccelerator U a = Inr (mods, nnm)"
      and "consistent w s"
  shows "\<exists>s1 s2. register U a cb1 w o1 s = Returned s1
       \<and> register U a cb2 w o2 s1 = Returned s2
       \<and> getShortcutLocal a w s2 =
           Some (Handler (Suc (nextId s)) a mods nnm (optionsStrict o2) cb2, w)
       \<and> listeners s2 w =
           remaining a w s @ [Handler (Suc (nextId s)) a mods nnm (optionsStrict o2) cb2]
       \<and> (\<forall>h\<in>set (remaining a w s). h_accelerator h \<noteq> a)
       \<and> filter (\<lambda>h. h_accelerator h = a) (listeners s2 w) =
           [Handler (Suc (nextId s)) a mods nnm (optionsStrict o2) cb2]
       \<and> Handler (nextId s) a mods nnm (optionsStrict o1) cb1 \<notin> set (listeners s2 w)
       \<and> calls s2 = calls s
       \<and> (\<forall>i. matchesInput (inputProperties U)
                 (Handler (Suc (nextId s)) a mods nnm (optionsStrict o2) cb2) i \<longrightarrow>
              calls (emitInput U w i s2) =
                calls s2 @
                map h_f (filter (\<lambda>h. matchesInput (inputProperties U) h i) (remaining a w s)) @
                [cb2])"
proof -
  let ?h1 = "Handler (nextId s) a mods nnm (optionsStrict o1) cb1"
  let ?h2 = "Handler (Suc (nextId s)) a mods nnm (optionsStrict o2) cb2"
  let ?s1 = "s\<lparr>localShortcutMap := (localShortcutMap s)(localKey a w \<mapsto> (?h1, w)),
               listeners := (listeners s)(w := remaining a w s @ [?h1]),
               nextId := Suc (nextId s)\<rparr>"
  let ?s2 = "?s1\<lparr>localShortcutMap := (localShortcutMap ?s1)(localKey a w \<mapsto> (?h2, w)),
               listeners := (listeners ?s1)(w := remaining a w s @ [?h2]),
               nextId := Suc (nextId ?s1)\<rparr>"
  have r1: "register U a cb1 w o1 s = Returned ?s1"
    by (rule register_Returned [OF assms(1)])
  have rem1: "remaining a w ?s1 = remaining a w s"
    by (simp add: remaining_def getShortcutLocal_def removeLast_snoc)
  have r2: "register U a cb2 w o2 ?s1 = Returned ?s2"
    using register_Returned [OF assms(1), of cb2 w o2 ?s1] by (simp add: rem1)
  have others: "\<forall>h\<in>set (remaining a w s). h_accelerator h \<noteq> a"
    using consistent_remaining [OF assms(2)] by blast
  have g: "getShortcutLocal a w ?s2 = Some (?h2, w)"
    by (simp add: getShortcutLocal_def)
  have l: "listeners ?s2 w = remaining a w s @ [?h2]"
    by simp
  have one: "filter (\<lambda>h. h_accelerator h = a) (listeners ?s2 w) = [?h2]"
    using others by (simp add: l filter_empty_conv)
  have gone: "?h1 \<notin> set (listeners ?s2 w)"
    using others by (auto simp: l)
  have c: "calls ?s2 = calls s"
    by simp
  have e: "calls (emitInput U w i ?s2) =
             calls ?s2 @
             map h_f (filter (\<lambda>h. matchesInput (inputProperties U) h i) (remaining a w s)) @
             [cb2]"
    if "matchesInput (inputProperties U) ?h2 i" for i
    using that by (simp add: calls_emitInput)
  show ?thesis
    apply (rule exI [of _ ?s1])
    apply (rule exI [of _ ?s2])
    using r1 r2 g l others one gone c e by blast
qed

text \<open>
  \<^verbatim>\<open>Ctrl+A\<close> registered twice on the window 1 of a fresh process, with the callbacks
  7 and 8: one handler listens, and a key-down of \<^verbatim>\<open>A\<close> with \<^verbatim>\<open>control\<close> held calls 8
  and nothing else.
\<close>

theorem register_twice_witness:
  "parseAccelerator (spec_utils False) ''Ctrl+A'' = Inr ([''control''], ''a'')
   \<and> consistent 1 (initial [1])
   \<and> (\<exists>s1 s2. register (spec_utils False) ''Ctrl+A'' 7 1 None (initial [1]) = Returned s1
        \<and> register (spec_utils False) ''Ctrl+A'' 8 1 None s1 = Returned s2
        \<and> listeners s2 1 = [Handler 1 ''Ctrl+A'' [''control''] ''a'' False 8]
        \<and> calls (emitInput (spec_utils False) 1
                   \<lparr>input_type = ''keyDown'', input_key = ''A'',
                    input_prop = (\<lambda>p. p = ''control'')\<rparr> s2) = [8])"
proof -
  let ?U = "spec_utils False"
  let ?i = "\<lparr>input_type = ''keyDown'', input_key = ''A'', input_prop = (\<lambda>p. p = ''control'')\<rparr>"
  have f: "consistent 1 (initial [1])"
    by (rule reachable_consistent [OF reachable.start])
  have rem: "remaining ''Ctrl+A'' 1 (initial [1]) = []"
    by (simp add: remaining_def getShortcutLocal_def initial_def)
  have n: "nextId (initial [1]) = 0" and c: "calls (initial [1]) = []"
    by (simp_all add: initial_def)
  have m: "matchesInput (inputProperties ?U) (Handler (Suc 0) ''Ctrl+A'' [''control''] ''a'' False 8) ?i"
    by (simp add: matchesInput_def modifiersCheck_def modifiersCheckNonStrict_def
        toLowerCase_def lower_char_def)
  from register_twice [OF parse_ctrl_a f, of 7 None 8 None]
  have "\<exists>s1 s2. register ?U ''Ctrl+A'' 7 1 None (initial [1]) = Returned s1
       \<and> register ?U ''Ctrl+A'' 8 1 None s1 = Returned s2
       \<and> listeners s2 1 = [Handler (Suc 0) ''Ctrl+A'' [''control''] ''a'' False 8]
       \<and> calls s2 = []
       \<and> (\<forall>i. matchesInput (inputProperties ?U) (Handler (Suc 0) ''Ctrl+A'' [''control''] ''a'' False 8) i \<longrightarrow>
              calls (emitInput ?U 1 i s2) = calls s2 @ [8])"
    unfolding rem n c optionsStrict_def by simp blast
  then obtain s1 s2 where
      "register ?U ''Ctrl+A'' 7 1 None (initial [1]) = Returned s1"
      "register ?U ''Ctrl+A'' 8 1 None s1 = Returned s2"
      "listeners s2 1 = [Handler (Suc 0) ''Ctrl+A'' [''control''] ''a'' False 8]"
      "calls s2 = []"
      "\<forall>i. matchesInput (inputProperties ?U) (Handler (Suc 0) ''Ctrl+A'' [''control''] ''a'' False 8) i \<longrightarrow>
         calls (emitInput ?U 1 i s2) = calls s2 @ [8]"
    by blast
  with m parse_ctrl_a f show ?thesis by auto
qed

subsection \<open>C2\<close>

text \<open>
  C2. On a key-down snapshot whose key equals the normalised non-modifier key without
  regard to case, a non-strict handler calls the callback exactly when every input
  property of the normalised modifiers is true on the snapshot, whatever the other
  properties are; a strict handler calls it exactly when, in addition, every input
  property outside the normalised modifiers is false. When the normalised modifiers are
  among the input properties, the strict condition says that the properties held are the
  required ones exactly. A call is recorded at the end of the calls; otherwise the state
  is unchanged.
\<close>

theorem modifiers_check_semantics:
  assumes "input_type i \<noteq> ''keyUp''"
      and "toLowerCase (input_key i) = toLowerCase (h_normalizedNonModifier h)"
  shows "(\<not> h_strict h \<longrightarrow>
            runHandler inputProps h i s =
              (if \<forall>m\<in>set (h_inputModifiers h). input_prop i m
               then invoke (h_f h) s else s))
       \<and> (h_strict h \<longrightarrow>
            runHandler inputProps h i s =
              (if (\<forall>m\<in>set (h_inputModifiers h). input_prop i m) \<and>
                  (\<forall>p\<in>set inputProps. p \<notin> set (h_inputModifiers h) \<longrightarrow> \<not> input_prop i p)
               then invoke (h_f h) s else s))
       \<and> (h_strict h \<and> set (h_inputModifiers h) \<subseteq> set inputProps \<longrightarrow>
            (runHandler inputProps h i s = invoke (h_f h) s) =
              ({p \<in> set inputProps. input_prop i p} = set (h_inputModifiers h)))
       \<and> calls (invoke (h_f h) s) = calls s @ [h_f h]"
proof (intro conjI impI)
  assume "\<not> h_strict h"
  with assms show "runHandler inputProps h i s =
      (if \<forall>m\<in>set (h_inputModifiers h). input_prop i m then invoke (h_f h) s else s)"
    by (simp add: runHandler_matches matchesInput_def modifiersCheck_def
        modifiersCheckNonStrict_iff)
next
  assume "h_strict h"
  with assms show "runHandler inputProps h i s =
      (if (\<forall>m\<in>set (h_inputModifiers h). input_prop i m) \<and>
          (\<forall>p\<in>set inputProps. p \<notin> set (h_inputModifiers h) \<longrightarrow> \<not> input_prop i p)
       then invoke (h_f h) s else s)"
    by (simp add: runHandler_matches matchesInput_def modifiersCheck_def
        modifiersCheckStrict_iff)
next
  assume a: "h_strict h \<and> set (h_inputModifiers h) \<subseteq> set inputProps"
  then have "matchesInput inputProps h i =
      ({p \<in> set inputProps. input_prop i p} = set (h_inputModifiers h))"
    using assms by (simp add: matchesInput_def modifiersCheck_def strict_exact)
  then show "(runHandler inputProps h i s = invoke (h_f h) s) =
      ({p \<in> set inputProps. input_prop i p} = set (h_inputModifiers h))"
    using invoke_neq [of "h_f h" s] by (auto simp: runHandler_matches)
next
  show "calls (invoke (h_f h) s) = calls s @ [h_f h]"
    by (simp add: invoke_def)
qed

text \<open>
  The accelerator \<^verbatim>\<open>Control+A\<close> on the snapshot with key \<^verbatim>\<open>a\<close>, \<^verbatim>\<open>control\<close> and
  \<^verbatim>\<open>shift\<close>: the non-strict handler calls the callback, the strict one does not.
\<close>

theorem modifiers_check_semantics_witness:
  "runHandler [''control'', ''command'', ''alt'', ''shift'', ''super'']
     (Handler 0 ''Control+A'' [''control''] ''a'' False 7)
     \<lparr>input_type = ''keyDown'', input_key = ''A'',
      input_prop = (\<lambda>p. p = ''control'' \<or> p = ''shift'')\<rparr> (initial [1])
     = invoke 7 (initial [1])
   \<and> runHandler [''control'', ''command'', ''alt'', ''shift'', ''super'']
     (Handler 0 ''Control+A'' [''control''] ''a'' True 7)
     \<lparr>input_type = ''keyDown'', input_key = ''A'',
      input_prop = (\<lambda>p. p = ''control'' \<or> p = ''shift'')\<rparr> (initial [1])
     = initial [1]"
proof -
  let ?i = "\<lparr>input_type = ''keyDown'', input_key = ''A'',
             input_prop = (\<lambda>p. p = ''control'' \<or> p = ''shift'')\<rparr>"
  let ?P = "[''control'', ''command'', ''alt'', ''shift'', ''super'']"
  have t: "input_type ?i \<noteq> ''keyUp''" by simp
  have k: "toLowerCase (input_key ?i) = toLowerCase (h_normalizedNonModifier (Handler 0 ''Control+A'' [''control''] ''a'' b 7))"
    for b by (simp add: toLowerCase_def lower_char_def)
  from modifiers_check_semantics [OF t k, of False ?P "initial [1]"]
    modifiers_check_semantics [OF t k, of True ?P "initial [1]"]
  show ?thesis by simp
qed

subsection \<open>C3\<close>

text \<open>
  C3. On a snapshot of type key-up, no handler calls its callback, whatever the key and
  the modifier flags: calling a handler leaves the state as it is, and so does
  delivering the event to a window, whatever handlers listen there.
\<close>

theorem keyUp_never_invokes:
  assumes "input_type i = ''keyUp''"
  shows "runHandler inputProps h i s = s \<and> emitInput U wc i s = s"
proof
  from assms show h: "runHandler inputProps h i s = s" for inputProps h s
    by (simp add: runHandler_def onKeyUp_def constVoid_def)
  show "emitInput U wc i s = s"
    unfolding emitInput_def by (rule foldl_fixed) (rule h)
qed

text \<open>
  A key-up of \<^verbatim>\<open>a\<close> with \<^verbatim>\<open>control\<close> held, delivered to a window on which
  \<^verbatim>\<open>Ctrl+A\<close> is registered, changes nothing.
\<close>

theorem keyUp_never_invokes_witness:
  "listeners (state_of (register (spec_utils False) ''Ctrl+A'' 7 1 None (initial [1]))) 1
     = [Handler 0 ''Ctrl+A'' [''control''] ''a'' False 7]
   \<and> emitInput (spec_utils False) 1
       \<lparr>input_type = ''keyUp'', input_key = ''a'', input_prop = (\<lambda>p. p = ''control'')\<rparr>
       (state_of (register (spec_utils False) ''Ctrl+A'' 7 1 None (initial [1])))
     = state_of (register (spec_utils False) ''Ctrl+A'' 7 1 None (initial [1]))"
proof -
  let ?i = "\<lparr>input_type = ''keyUp'', input_key = ''a'', input_prop = (\<lambda>p. p = ''control'')\<rparr>"
  have t: "input_type ?i = ''keyUp''" by simp
  have "listeners (state_of (register (spec_utils False) ''Ctrl+A'' 7 1 None (initial [1]))) 1
     = [Handler 0 ''Ctrl+A'' [''control''] ''a'' False 7]"
    by (simp add: register_Returned [OF parse_ctrl_a] remaining_def getShortcutLocal_def
        initial_def optionsStrict_def)
  with keyUp_never_invokes [OF t] show ?thesis by simp
qed

subsection \<open>C4\<close>

text \<open>
  C4. When the accelerator parses, \<^verbatim>\<open>register\<close> returns and \<^verbatim>\<open>isRegisteredLocal\<close>
  is true right after it; \<^verbatim>\<open>unregister\<close> then returns and \<^verbatim>\<open>isRegisteredLocal\<close> is
  false.
\<close>

theorem register_then_unregister:
  assumes "parseAccelerator U a = Inr p"
  shows "\<exists>s1 s2. register U a cb w opts s = Returned s1
           \<and> isRegisteredLocal a w s1
           \<and> unregister a w s1 = Returned s2
           \<and> \<not> isRegisteredLocal a w s2"
proof -
  obtain mods nnm where p: "parseAccelerator U a = Inr (mods, nnm)"
    using assms by (cases p) simp
  let ?h = "Handler (nextId s) a mods nnm (optionsStrict opts) cb"
  let ?s1 = "s\<lparr>localShortcutMap := (localShortcutMap s)(localKey a w \<mapsto> (?h, w)),
               listeners := (listeners s)(w := remaining a w s @ [?h]),
               nextId := Suc (nextId s)\<rparr>"
  have r: "register U a cb w opts s = Returned ?s1"
    by (rule register_Returned [OF p])
  have g: "getShortcutLocal a w ?s1 = Some (?h, w)"
    by (simp add: getShortcutLocal_def)
  have i: "isRegisteredLocal a w ?s1"
    by (simp add: isRegisteredLocal_def g)
  note u = unregister_present [OF g]
  have "\<not> isRegisteredLocal a w (state_of (unregister a w ?s1))"
    unfolding u by (simp add: isRegisteredLocal_def getShortcutLocal_def)
  with r i u show ?thesis by auto
qed

text \<open>\<^verbatim>\<open>Ctrl+A\<close> on the window 1 of a fresh process.\<close>

theorem register_then_unregister_witness:
  "parseAccelerator (spec_utils False) ''Ctrl+A'' = Inr ([''control''], ''a'')
   \<and> (\<exists>s1 s2. register (spec_utils False) ''Ctrl+A'' 7 1 None (initial [1]) = Returned s1
           \<and> isRegisteredLocal ''Ctrl+A'' 1 s1
           \<and> unregister ''Ctrl+A'' 1 s1 = Returned s2
           \<and> \<not> isRegisteredLocal ''Ctrl+A'' 1 s2)"
  using parse_ctrl_a register_then_unregister [OF parse_ctrl_a] by blast

subsection \<open>C5\<close>

text \<open>
  C5. \<^verbatim>\<open>unregister\<close> of an accelerator the local map has no entry for, on a fresh
  process: \<^verbatim>\<open>handler\<close> is undefined, the guard \<^verbatim>\<open>!!webContents\<close> lets
  \<^verbatim>\<open>doUnregister\<close> run, and \<^verbatim>\<open>removeListener\<close> throws a \<^verbatim>\<open>TypeError\<close>.
\<close>

theorem unregister_absent_throws:
  "getShortcutLocal ''Ctrl+A'' 1 (initial [1]) = None
   \<and> unregister ''Ctrl+A'' 1 (initial [1]) = Threw TypeError (initial [1])"
proof -
  have "getShortcutLocal ''Ctrl+A'' 1 (initial [1]) = None"
    by (simp add: getShortcutLocal_def initial_def)
  then show ?thesis by (simp add: unregister_absent)
qed

subsection \<open>C6\<close>

text \<open>
  C6. The local map is keyed by the raw accelerator. When \<^verbatim>\<open>a1\<close> parses and \<^verbatim>\<open>a2\<close>
  is another string, \<^verbatim>\<open>register\<close> of \<^verbatim>\<open>a1\<close> returns, makes
  \<^verbatim>\<open>isRegisteredLocal\<close> true of \<^verbatim>\<open>a1\<close> and leaves it as it was of \<^verbatim>\<open>a2\<close>; and
  whatever \<^verbatim>\<open>unregister\<close> of \<^verbatim>\<open>a2\<close> does then, the entry installed under \<^verbatim>\<open>a1\<close>
  stays.
\<close>

theorem registry_keyed_by_raw_accelerator:
  assumes "parseAccelerator U a1 = Inr p" and "a1 \<noteq> a2"
  shows "\<exists>s1. register U a1 cb w opts s = Returned s1
          \<and> isRegisteredLocal a1 w s1
          \<and> isRegisteredLocal a2 w s1 = isRegisteredLocal a2 w s
          \<and> getShortcutLocal a1 w (state_of (unregister a2 w s1)) = getShortcutLocal a1 w s1"
proof -
  obtain mods nnm where p: "parseAccelerator U a1 = Inr (mods, nnm)"
    using assms(1) by (cases p) simp
  let ?h = "Handler (nextId s) a1 mods nnm (optionsStrict opts) cb"
  let ?s1 = "s\<lparr>localShortcutMap := (localShortcutMap s)(localKey a1 w \<mapsto> (?h, w)),
               listeners := (listeners s)(w := remaining a1 w s @ [?h]),
               nextId := Suc (nextId s)\<rparr>"
  have k: "localKey a2 w \<noteq> localKey a1 w" "localKey a1 w \<noteq> localKey a2 w"
    using assms(2) by (simp_all add: localKey_inj)
  have r: "register U a1 cb w opts s = Returned ?s1"
    by (rule register_Returned [OF p])
  have i1: "isRegisteredLocal a1 w ?s1"
    by (simp add: isRegisteredLocal_def getShortcutLocal_def)
  have i2: "isRegisteredLocal a2 w ?s1 = isRegisteredLocal a2 w s"
    using k by (simp add: isRegisteredLocal_def getShortcutLocal_def)
  have u: "getShortcutLocal a1 w (state_of (unregister a2 w ?s1)) = getShortcutLocal a1 w ?s1"
  proof (cases "getShortcutLocal a2 w ?s1")
    case None
    then show ?thesis by (simp add: unregister_absent)
  next
    case (Some q)
    obtain h0 w0 where "q = (h0, w0)" by (cases q)
    with Some have "getShortcutLocal a2 w ?s1 = Some (h0, w0)" by simp
    from unregister_present [OF this] k show ?thesis
      by (simp add: getShortcutLocal_def)
  qed
  from r i1 i2 u show ?thesis by blast
qed

text \<open>\<^verbatim>\<open>Ctrl+Shift+A\<close> registered, \<^verbatim>\<open>shift+ctrl+a\<close> queried and unregistered.\<close>

theorem registry_keyed_by_raw_accelerator_witness:
  "parseAccelerator (spec_utils False) ''Ctrl+Shift+A'' = Inr ([''control'', ''shift''], ''a'')
   \<and> ''Ctrl+Shift+A'' \<noteq> ''shift+ctrl+a''
   \<and> (\<exists>s1. register (spec_utils False) ''Ctrl+Shift+A'' 7 1 None (initial [1]) = Returned s1
          \<and> isRegisteredLocal ''Ctrl+Shift+A'' 1 s1
          \<and> isRegisteredLocal ''shift+ctrl+a'' 1 s1 = isRegisteredLocal ''shift+ctrl+a'' 1 (initial [1])
          \<and> getShortcutLocal ''Ctrl+Shift+A'' 1 (state_of (unregister ''shift+ctrl+a'' 1 s1))
              = getShortcutLocal ''Ctrl+Shift+A'' 1 s1)"
proof -
  have d: "''Ctrl+Shift+A'' \<noteq> ''shift+ctrl+a''" by simp
  from registry_keyed_by_raw_accelerator [OF parse_ctrl_shift_a d] parse_ctrl_shift_a d
  show ?thesis by blast
qed

text \<open>
  The accelerators \<^verbatim>\<open>Ctrl+Shift+A\<close> and \<^verbatim>\<open>shift+ctrl+a\<close> both parse and differ only
  in the case and the order of their tokens. After \<^verbatim>\<open>register\<close> of the first on a
  fresh process, \<^verbatim>\<open>isRegisteredLocal\<close> of the second is false, and \<^verbatim>\<open>unregister\<close> of
  the second leaves the first registered.
\<close>

theorem case_and_order_counterexample:
  "parseAccelerator (spec_utils False) ''Ctrl+Shift+A'' = Inr ([''control'', ''shift''], ''a'')
   \<and> parseAccelerator (spec_utils False) ''shift+ctrl+a'' = Inr ([''shift'', ''control''], ''a'')
   \<and> \<not> isRegisteredLocal ''shift+ctrl+a'' 1
        (state_of (register (spec_utils False) ''Ctrl+Shift+A'' 7 1 None (initial [1])))
   \<and> isRegisteredLocal ''Ctrl+Shift+A'' 1
        (state_of (unregister ''shift+ctrl+a'' 1
           (state_of (register (spec_utils False) ''Ctrl+Shift+A'' 7 1 None (initial [1])))))"
proof -
  have k: "localKey ''shift+ctrl+a'' 1 \<noteq> localKey ''Ctrl+Shift+A'' 1"
    by (simp add: localKey_inj)
  have n: "getShortcutLocal ''shift+ctrl+a'' 1
      (state_of (register (spec_utils False) ''Ctrl+Shift+A'' 7 1 None (initial [1]))) = None"
    using k by (simp add: register_Returned [OF parse_ctrl_shift_a] getShortcutLocal_def initial_def)
  show ?thesis
    using n by (simp add: parse_ctrl_shift_a parse_shift_ctrl_a isRegisteredLocal_def unregister_absent)
       (simp add: register_Returned [OF parse_ctrl_shift_a] getShortcutLocal_def)
qed

subsection \<open>C7\<close>

text \<open>
  C7. Two calls of \<^verbatim>\<open>registerOnAll\<close> for \<^verbatim>\<open>Ctrl+A\<close> on a fresh process with the
  windows 1 and 2: both creation handlers stay subscribed. \<^verbatim>\<open>unregisterOnAll\<close> then
  removes the second one only, and a window created afterwards gets the callback of
  the first call registered.
\<close>

theorem registerOnAll_keeps_old_creation_handler:
  "appListeners
     (state_of (registerOnAll (spec_utils False) ''Ctrl+A'' 8 None
       (state_of (registerOnAll (spec_utils False) ''Ctrl+A'' 7 None (initial [1, 2])))))
     = [AllHandler 0 ''Ctrl+A'' 7 None, AllHandler 3 ''Ctrl+A'' 8 None]
   \<and> appListeners
     (state_of (unregisterOnAll ''Ctrl+A''
       (state_of (registerOnAll (spec_utils False) ''Ctrl+A'' 8 None
         (state_of (registerOnAll (spec_utils False) ''Ctrl+A'' 7 None (initial [1, 2])))))))
     = [AllHandler 0 ''Ctrl+A'' 7 None]
   \<and> listeners
     (state_of (createWindow (spec_utils False) 3
       (state_of (unregisterOnAll ''Ctrl+A''
         (state_of (registerOnAll (spec_utils False) ''Ctrl+A'' 8 None
           (state_of (registerOnAll (spec_utils False) ''Ctrl+A'' 7 None (initial [1, 2]))))))))) 3
     = [Handler 6 ''Ctrl+A'' [''control''] ''a'' False 7]"
  by code_simp

subsection \<open>C8\<close>

text \<open>
  C8. For every malformed accelerator (no non-modifier token, two or more, an empty
  token, or the empty string), \<^verbatim>\<open>register\<close> throws \<^verbatim>\<open>MalformedAccelerator\<close> with the
  state as it was before the call: the three maps and every subscription are
  unchanged. \<^verbatim>\<open>registerOnAll\<close> throws \<^verbatim>\<open>MalformedAccelerator\<close> when a window is open
  and returns when none is, in both cases after it has subscribed its creation handler
  and stored it in the on-all map; the local and the global map are unchanged.
  \<^verbatim>\<open>registerGlobal\<close> does not parse: it never throws \<^verbatim>\<open>MalformedAccelerator\<close>, and
  when the global map has no entry for the accelerator it stores the callback there
  before it asks for the capture.
\<close>

theorem malformed_accelerator:
  assumes "malformed mac a"
  shows "register (spec_utils mac) a cb w opts s = Threw MalformedAccelerator s
       \<and> registerOnAll (spec_utils mac) a cb opts s =
           (if windows s = [] then Returned else Threw MalformedAccelerator)
             (setShortcutOnAll a (AllHandler (nextId s) a cb opts)
               (appOn (AllHandler (nextId s) a cb opts) (s\<lparr>nextId := Suc (nextId s)\<rparr>)))
       \<and> localShortcutMap (state_of (registerOnAll (spec_utils mac) a cb opts s))
           = localShortcutMap s
       \<and> globalShortcutMap (state_of (registerOnAll (spec_utils mac) a cb opts s))
           = globalShortcutMap s
       \<and> (\<forall>s'. registerGlobal accepts a cb s \<noteq> Threw MalformedAccelerator s')
       \<and> (\<not> isRegisteredGlobal a s \<longrightarrow>
            getShortcutGlobal a (state_of (registerGlobal accepts a cb s)) = Some cb)"
proof -
  note p = malformed_parse [OF assms]
  let ?h = "AllHandler (nextId s) a cb opts"
  let ?s3 = "setShortcutOnAll a ?h (appOn ?h (s\<lparr>nextId := Suc (nextId s)\<rparr>))"
  have r: "register (spec_utils mac) a cb w opts s = Threw MalformedAccelerator s" for w s
    by (rule register_Threw [OF p])
  have o: "registerOnAll (spec_utils mac) a cb opts s =
             (if windows s = [] then Returned else Threw MalformedAccelerator) ?s3"
  proof (cases "windows s")
    case Nil
    then show ?thesis by (simp add: registerOnAll_def Let_def)
  next
    case (Cons x xs)
    then show ?thesis by (simp add: registerOnAll_def Let_def r)
  qed
  have l: "localShortcutMap (state_of (registerOnAll (spec_utils mac) a cb opts s))
             = localShortcutMap s"
    and g: "globalShortcutMap (state_of (registerOnAll (spec_utils mac) a cb opts s))
             = globalShortcutMap s"
    unfolding o by (simp_all add: setShortcutOnAll_def appOn_def)
  have n: "registerGlobal accepts a cb s \<noteq> Threw MalformedAccelerator s'" for s'
    using registerGlobal_throws_TypeError_only [of accepts a cb s MalformedAccelerator s']
    by auto
  have f: "getShortcutGlobal a (state_of (registerGlobal accepts a cb s)) = Some cb"
    if "\<not> isRegisteredGlobal a s"
    using that by (rule registerGlobal_stores_first)
  from r o l g n f show ?thesis by blast
qed

text \<open>
  \<^verbatim>\<open>Ctrl+Shift\<close> has no key, \<^verbatim>\<open>A+B\<close> has two, \<^verbatim>\<open>Foo+A\<close> has a modifier the alias
  table does not know, and the empty string has nothing: \<^verbatim>\<open>register\<close> throws on each
  and leaves a fresh process as it was.
\<close>

theorem malformed_accelerator_witness:
  "malformed False ''Ctrl+Shift''
   \<and> register (spec_utils False) ''Ctrl+Shift'' 7 1 None (initial [1])
       = Threw MalformedAccelerator (initial [1])
   \<and> malformed False ''A+B''
   \<and> register (spec_utils False) ''A+B'' 7 1 None (initial [1])
       = Threw MalformedAccelerator (initial [1])
   \<and> malformed False ''Foo+A''
   \<and> register (spec_utils False) ''Foo+A'' 7 1 None (initial [1])
       = Threw MalformedAccelerator (initial [1])
   \<and> malformed False ''''
   \<and> register (spec_utils False) '''' 7 1 None (initial [1])
       = Threw MalformedAccelerator (initial [1])"
proof -
  have m1: "malformed False ''Ctrl+Shift''" by code_simp
  have m2: "malformed False ''A+B''" by code_simp
  have m3: "malformed False ''Foo+A''" by code_simp
  have m4: "malformed False ''''" by code_simp
  from malformed_accelerator [OF m1, of 7 1 None "initial [1]"]
    malformed_accelerator [OF m2, of 7 1 None "initial [1]"]
    malformed_accelerator [OF m3, of 7 1 None "initial [1]"]
    malformed_accelerator [OF m4, of 7 1 None "initial [1]"]
    m1 m2 m3 m4
  show ?thesis by blast
qed

text \<open>
  The malformed accelerator \<^verbatim>\<open>Ctrl+Shift\<close> on a fresh process. With one window open,
  \<^verbatim>\<open>registerOnAll\<close> throws \<^verbatim>\<open>MalformedAccelerator\<close> with the on-all map changed; with
  no window open it returns. \<^verbatim>\<open>registerGlobal\<close> leaves the global map changed and
  does not throw \<^verbatim>\<open>MalformedAccelerator\<close>, whatever \<^verbatim>\<open>globalShortcut\<close> accepts.
\<close>

theorem malformed_accelerator_counterexample:
  "malformed False ''Ctrl+Shift''
   \<and> (\<exists>s'. registerOnAll (spec_utils False) ''Ctrl+Shift'' 7 None (initial [1])
             = Threw MalformedAccelerator s'
           \<and> allShortcutMap s' \<noteq> allShortcutMap (initial [1]))
   \<and> (\<exists>s'. registerOnAll (spec_utils False) ''Ctrl+Shift'' 7 None (initial [])
             = Returned s')
   \<and> (\<forall>accepts.
         globalShortcutMap (state_of (registerGlobal accepts ''Ctrl+Shift'' 7 (initial [1])))
           \<noteq> globalShortcutMap (initial [1]))
   \<and> (\<forall>accepts s'.
         registerGlobal accepts ''Ctrl+Shift'' 7 (initial [1]) \<noteq> Threw MalformedAccelerator s')"
proof (intro conjI allI)
  show "malformed False ''Ctrl+Shift''"
    by code_simp
  show "\<exists>s'. registerOnAll (spec_utils False) ''Ctrl+Shift'' 7 None (initial [1])
             = Threw MalformedAccelerator s'
           \<and> allShortcutMap s' \<noteq> allShortcutMap (initial [1])"
    by (simp add: registerOnAll_def Let_def register_Threw [OF parse_ctrl_shift]
        setShortcutOnAll_def appOn_def initial_def)
  show "\<exists>s'. registerOnAll (spec_utils False) ''Ctrl+Shift'' 7 None (initial []) = Returned s'"
    by (simp add: registerOnAll_def Let_def initial_def)
  show "globalShortcutMap (state_of (registerGlobal accepts ''Ctrl+Shift'' 7 (initial [1])))
           \<noteq> globalShortcutMap (initial [1])" for accepts
  proof -
    have n: "\<not> isRegisteredGlobal ''Ctrl+Shift'' (initial [1])"
      by (simp add: isRegisteredGlobal_def getShortcutGlobal_def initial_def)
    have "globalShortcutMap (state_of (registerGlobal accepts ''Ctrl+Shift'' 7 (initial [1])))
        ''Ctrl+Shift'' = Some 7"
      using registerGlobal_stores_first [OF n, of accepts 7] by (simp add: getShortcutGlobal_def)
    moreover have "globalShortcutMap (initial [1]) ''Ctrl+Shift'' = None"
      by (simp add: initial_def)
    ultimately show ?thesis by (metis option.distinct(1))
  qed
  show "registerGlobal accepts ''Ctrl+Shift'' 7 (initial [1]) \<noteq> Threw MalformedAccelerator s'"
    for accepts s'
    using registerGlobal_throws_TypeError_only
      [of accepts "''Ctrl+Shift''" 7 "initial [1]" MalformedAccelerator s']
    by auto
qed

subsection \<open>C9\<close>

text \<open>
  C9. For an accelerator \<^verbatim>\<open>globalShortcut\<close> accepts, from any state, two calls of
  \<^verbatim>\<open>registerGlobal\<close> both return. The second call first runs \<^verbatim>\<open>unregisterGlobal\<close>,
  after which neither the global map nor \<^verbatim>\<open>globalShortcut\<close> holds the accelerator, and
  only then stores and captures: the calls to \<^verbatim>\<open>globalShortcut\<close> it makes are the
  release and then the capture of \<^verbatim>\<open>cb2\<close>. Afterwards the global map and
  \<^verbatim>\<open>globalShortcut\<close> both hold \<^verbatim>\<open>cb2\<close> for the accelerator, and triggering it calls
  \<^verbatim>\<open>cb2\<close>, once, and nothing else.
\<close>

theorem registerGlobal_twice:
  assumes "accepts a"
  shows "\<exists>s1 sr s2. registerGlobal accepts a cb1 s = Returned s1
     \<and> getShortcutGlobal a s1 = Some cb1
     \<and> unregisterGlobal accepts a s1 = Returned sr
     \<and> getShortcutGlobal a sr = None \<and> osBindings sr a = None
     \<and> osLog sr = osLog s1 @ [Release a]
     \<and> registerGlobal accepts a cb2 s1 = Returned s2
     \<and> s2 = osCapture a cb2 (setShortcutGlobal a cb2 sr)
     \<and> getShortcutGlobal a s2 = Some cb2 \<and> osBindings s2 a = Some cb2
     \<and> osLog s2 = osLog s1 @ [Release a, Capture a cb2]
     \<and> triggerGlobal a s2 = invoke cb2 s2
     \<and> calls (triggerGlobal a s2) = calls s2 @ [cb2]"
proof -
  define s1 where "s1 = osCapture a cb1 (setShortcutGlobal a cb1
      (if isRegisteredGlobal a s then osRelease a (deleteShortcutGlobal a s) else s))"
  have s1: "registerGlobal accepts a cb1 s = Returned s1"
    unfolding s1_def using assms by (rule registerGlobal_Returned)
  have g1: "getShortcutGlobal a s1 = Some cb1"
    by (simp add: s1_def getShortcutGlobal_def osCapture_def setShortcutGlobal_def)
  let ?sr = "osRelease a (deleteShortcutGlobal a s1)"
  let ?s2 = "osCapture a cb2 (setShortcutGlobal a cb2 ?sr)"
  have u: "unregisterGlobal accepts a s1 = Returned ?sr"
    using assms by (rule unregisterGlobal_Returned)
  have r: "getShortcutGlobal a ?sr = None" "osBindings ?sr a = None"
      "osLog ?sr = osLog s1 @ [Release a]"
    by (simp_all add: getShortcutGlobal_def osRelease_def deleteShortcutGlobal_def)
  have s2: "registerGlobal accepts a cb2 s1 = Returned ?s2"
    using g1 assms by (simp add: registerGlobal_Returned isRegisteredGlobal_def)
  have f: "getShortcutGlobal a ?s2 = Some cb2" "osBindings ?s2 a = Some cb2"
      "osLog ?s2 = osLog s1 @ [Release a, Capture a cb2]"
    by (simp_all add: getShortcutGlobal_def osCapture_def setShortcutGlobal_def
        osRelease_def deleteShortcutGlobal_def)
  have t: "triggerGlobal a ?s2 = invoke cb2 ?s2"
    by (simp add: triggerGlobal_def f(2))
  have c: "calls (triggerGlobal a ?s2) = calls ?s2 @ [cb2]"
    by (simp add: t invoke_def)
  from s1 g1 u r s2 f t c show ?thesis by blast
qed

text \<open>
  \<^verbatim>\<open>Ctrl+A\<close> registered globally twice on a fresh process, with the callbacks 7 and 8.
\<close>

theorem registerGlobal_twice_witness:
  "\<exists>s1 s2. registerGlobal (\<lambda>a. True) ''Ctrl+A'' 7 (initial []) = Returned s1
     \<and> registerGlobal (\<lambda>a. True) ''Ctrl+A'' 8 s1 = Returned s2
     \<and> osLog s2 = [Capture ''Ctrl+A'' 7, Release ''Ctrl+A'', Capture ''Ctrl+A'' 8]
     \<and> osBindings s2 ''Ctrl+A'' = Some 8
     \<and> calls (triggerGlobal ''Ctrl+A'' s2) = [8]"
proof -
  from registerGlobal_twice [of "\<lambda>a. True" "''Ctrl+A''" 7 "initial []" 8]
  obtain s1 s2 where
      s1: "registerGlobal (\<lambda>a. True) ''Ctrl+A'' 7 (initial []) = Returned s1"
    and s2: "registerGlobal (\<lambda>a. True) ''Ctrl+A'' 8 s1 = Returned s2"
    and l: "osLog s2 = osLog s1 @ [Release ''Ctrl+A'', Capture ''Ctrl+A'' 8]"
    and b: "osBindings s2 ''Ctrl+A'' = Some 8"
    and c: "calls (triggerGlobal ''Ctrl+A'' s2) = calls s2 @ [8]"
    by blast
  from s1 have l1: "osLog s1 = [Capture ''Ctrl+A'' 7]" and c1: "calls s1 = []"
    by (auto simp: registerGlobal_Returned isRegisteredGlobal_def getShortcutGlobal_def
        osCapture_def setShortcutGlobal_def initial_def)
  from s2 have "calls s2 = calls s1"
    by (auto simp: registerGlobal_Returned osCapture_def setShortcutGlobal_def
        osRelease_def deleteShortcutGlobal_def)
  with s1 s2 l b c l1 c1 show ?thesis by auto
qed

subsection \<open>C10\<close>

text \<open>
  C10. The key of the local map is the raw accelerator, the character \<^verbatim>\<open>-\<close> and the
  window id in decimal. A decimal id has no \<^verbatim>\<open>-\<close>, so the key determines both parts:
  two pairs of accelerator and window have the same key only when they are the same
  pair, also when the accelerator ends in \<^verbatim>\<open>-\<close> and digits. An entry set for one pair
  is read and deleted under that pair only.
\<close>

theorem localKey_injective:
  "(localKey a1 w1 = localKey a2 w2) = (a1 = a2 \<and> w1 = w2)
   \<and> getShortcutLocal a2 w2 (setShortcutLocal a1 w1 h s) =
       (if a1 = a2 \<and> w1 = w2 then Some (h, w1) else getShortcutLocal a2 w2 s)
   \<and> getShortcutLocal a2 w2 (deleteShortcutLocal a1 w1 s) =
       (if a1 = a2 \<and> w1 = w2 then None else getShortcutLocal a2 w2 s)"
  by (simp add: localKey_inj getShortcutLocal_def setShortcutLocal_def
      deleteShortcutLocal_def)

text \<open>No two distinct pairs of accelerator and window have the same key.\<close>

theorem localKey_collision_counterexample:
  "\<not> (\<exists>a1 w1 a2 w2. (a1, w1) \<noteq> (a2, w2) \<and> localKey a1 w1 = localKey a2 w2)"
  by (simp add: localKey_inj)

end
